theory Spec2Isabelle
  imports Main
begin

section \<open>GitLab merge requests: data model\<close>

text \<open>
  The extension's module \<^verbatim>\<open>gitlab.ts\<close> (the version with approvals, 234 lines) is
  embedded here. JavaScript numbers that hold identifiers and counts are modelled as
  \<open>int\<close>; an optional or nullable field is an \<open>option\<close> (\<open>None\<close> stands for both
  \<^verbatim>\<open>undefined\<close> and \<^verbatim>\<open>null\<close>, which \<^verbatim>\<open>??\<close> and \<^verbatim>\<open>=== true\<close> do not tell apart);
  strings are byte strings.
\<close>

record UserSummary =
  user_id :: int
  name :: string
  username :: string
  avatar_url :: "string option"

record Pipeline =
  pipeline_id :: int
  status :: string
  pipeline_web_url :: "string option"

text \<open>The interface \<^verbatim>\<open>MergeRequest\<close> (lines 6 to 42). The fields \<^verbatim>\<open>id\<close>, \<^verbatim>\<open>state\<close>,
  \<^verbatim>\<open>approved\<close> and \<^verbatim>\<open>approvals_required\<close> carry the suffix \<open>_mr\<close> here.\<close>

record MergeRequest =
  id_mr :: int
  iid :: int
  project_id :: int
  title :: string
  description :: string
  state_mr :: string
  created_at :: string
  updated_at :: string
  merged_at :: "string option"
  web_url :: string
  author :: UserSummary
  reviewers :: "UserSummary list option"
  head_pipeline :: "Pipeline option"
  approved_mr :: "bool option"
  source_branch :: string
  target_branch :: string
  draft :: bool
  work_in_progress :: "bool option"
  approvals_required_mr :: "int option"
  upvotes :: int
  downvotes :: int

text \<open>The body of the per-item approvals resource, as the code types it after decoding.\<close>

type_synonym approver = "(int \<times> string) option"

record Approvals =
  approved :: "bool option"
  approvals_left :: "int option"
  approvals_required :: "int option"
  approved_by :: "approver list option"

subsection \<open>The approval heuristic of \<^verbatim>\<open>useApprovals\<close> (lines 183 to 200)\<close>

definition approvalsRequired :: "Approvals \<Rightarrow> int" where
  "approvalsRequired json = (case approvals_required json of None \<Rightarrow> 0 | Some r \<Rightarrow> r)"

text \<open>\<open>None\<close> is the \<^verbatim>\<open>undefined\<close> the source leaves when nothing is known.\<close>

definition approvalsLeft :: "Approvals \<Rightarrow> int option" where
  "approvalsLeft json =
     (case approvals_left json of
        Some l \<Rightarrow> Some l
      | None \<Rightarrow> (if approvalsRequired json = 0 then Some 0 else None))"

definition approversCount :: "Approvals \<Rightarrow> nat" where
  "approversCount json = (case approved_by json of None \<Rightarrow> 0 | Some xs \<Rightarrow> length xs)"

text \<open>The value of \<^verbatim>\<open>isApproved\<close> after the first \<^verbatim>\<open>if\<close>/\<^verbatim>\<open>else\<close> (lines 187 to 196).\<close>

definition primaryApproved :: "Approvals \<Rightarrow> bool" where
  "primaryApproved json =
     (if approvalsRequired json > 0
      then (if approvalsLeft json = Some 0 \<and> approversCount json > 0 then True else False)
      else False)"

text \<open>The value of \<^verbatim>\<open>isApproved\<close> that is returned (after the fallback of lines 197 to 200).\<close>

definition isApproved :: "Approvals \<Rightarrow> bool" where
  "isApproved json =
     (let a = primaryApproved json
      in if \<not> a \<and> approved json = Some True \<and> approversCount json > 0 then True else a)"

section \<open>Preferences, URLs and query strings\<close>

record Prefs =
  gitlabInstance :: string
  gitlabToken :: string

datatype js_error = TypeError

text \<open>
  The platform's \<^verbatim>\<open>URL\<close> object, as far as the module uses it: the serialised part
  before the query and the list behind \<^verbatim>\<open>url.searchParams\<close>. The constructor
  \<^verbatim>\<open>new URL(relative, base)\<close> belongs to the platform, not to the repository, so every
  function that calls it takes it as the parameter \<open>new_URL\<close>; it throws a
  \<^verbatim>\<open>TypeError\<close> on a base it cannot parse.
\<close>

record URL =
  href_base :: string
  searchParams :: "(string \<times> string) list"

type_synonym URL_constructor = "string \<Rightarrow> string \<Rightarrow> js_error + URL"

subsection \<open>\<^verbatim>\<open>String(n)\<close> for an integral number\<close>

fun digits :: "nat \<Rightarrow> string" where
  "digits n = (if n < 10 then [char_of (48 + n)] else digits (n div 10) @ [char_of (48 + n mod 10)])"

declare digits.simps [simp del]

text \<open>Reading a string of decimal digits back, to show that \<open>digits\<close> loses nothing.\<close>

definition digit_value :: "string \<Rightarrow> nat" where
  "digit_value s = foldl (\<lambda>a c. 10 * a + (of_char c - 48)) 0 s"

definition String_number :: "int \<Rightarrow> string" where
  "String_number n = (if n < 0 then CHR ''-'' # digits (nat (- n)) else digits (nat n))"

subsection \<open>\<^verbatim>\<open>URLSearchParams\<close>: \<^verbatim>\<open>set\<close> and the urlencoded serialiser\<close>

text \<open>\<^verbatim>\<open>set(name, value)\<close> overwrites the first pair of that name and drops the others,
  or appends a new pair.\<close>

fun sp_set :: "string \<Rightarrow> string \<Rightarrow> (string \<times> string) list \<Rightarrow> (string \<times> string) list" where
  "sp_set k v [] = [(k, v)]"
| "sp_set k v (p # ps) =
     (if fst p = k then (k, v) # filter (\<lambda>q. fst q \<noteq> k) ps else p # sp_set k v ps)"

definition hexdigit :: "nat \<Rightarrow> char" where
  "hexdigit n = (if n < 10 then char_of (48 + n) else char_of (55 + n))"

definition unreserved :: "char \<Rightarrow> bool" where
  "unreserved c =
     (let n = (of_char c :: nat)
      in (48 \<le> n \<and> n \<le> 57) \<or> (65 \<le> n \<and> n \<le> 90) \<or> (97 \<le> n \<and> n \<le> 122)
         \<or> c = CHR ''*'' \<or> c = CHR ''-'' \<or> c = CHR ''.'' \<or> c = CHR ''_'')"

definition encode_byte :: "char \<Rightarrow> string" where
  "encode_byte c =
     (if unreserved c then [c]
      else if c = CHR '' '' then ''+''
      else [CHR ''%'', hexdigit ((of_char c :: nat) div 16), hexdigit ((of_char c :: nat) mod 16)])"

definition urlencode :: "string \<Rightarrow> string" where
  "urlencode s = concat (map encode_byte s)"

fun serialise :: "(string \<times> string) list \<Rightarrow> string" where
  "serialise [] = []"
| "serialise [p] = urlencode (fst p) @ ''='' @ urlencode (snd p)"
| "serialise (p # ps) = urlencode (fst p) @ ''='' @ urlencode (snd p) @ ''&'' @ serialise ps"

definition toString :: "URL \<Rightarrow> string" where
  "toString u =
     href_base u @ (if searchParams u = [] then [] else CHR ''?'' # serialise (searchParams u))"

subsection \<open>\<^verbatim>\<open>buildGitLabURL\<close> (lines 54 to 64)\<close>

datatype param_value = Str string | Num int | Undefined | Null

definition String_value :: "param_value \<Rightarrow> string" where
  "String_value v =
     (case v of Str s \<Rightarrow> s | Num n \<Rightarrow> String_number n
      | Undefined \<Rightarrow> ''undefined'' | Null \<Rightarrow> ''null'')"

text \<open>\<^verbatim>\<open>path.replace(/^\//, "")\<close>: one leading slash is removed.\<close>

definition stripLeadingSlash :: "string \<Rightarrow> string" where
  "stripLeadingSlash path =
     (case path of [] \<Rightarrow> [] | c # cs \<Rightarrow> if c = CHR ''/'' then cs else path)"

definition endsWith :: "string \<Rightarrow> string \<Rightarrow> bool" where
  "endsWith s t = (length t \<le> length s \<and> drop (length s - length t) s = t)"

definition instanceBase :: "Prefs \<Rightarrow> string" where
  "instanceBase p =
     (if endsWith (gitlabInstance p) ''/'' then gitlabInstance p else gitlabInstance p @ ''/'')"

text \<open>The condition of the \<^verbatim>\<open>continue\<close> on line 59.\<close>

definition skipped :: "param_value \<Rightarrow> bool" where
  "skipped v = (v = Undefined \<or> v = Null \<or> v = Str [])"

definition setParam :: "string \<times> param_value \<Rightarrow> URL \<Rightarrow> URL" where
  "setParam kv u =
     (if skipped (snd kv) then u
      else u\<lparr>searchParams := sp_set (fst kv) (String_value (snd kv)) (searchParams u)\<rparr>)"

text \<open>Lines 57 to 62: the loop over \<^verbatim>\<open>Object.entries(searchParams)\<close>, when the argument
  is given.\<close>

definition applySearchParams :: "(string \<times> param_value) list option \<Rightarrow> URL \<Rightarrow> URL" where
  "applySearchParams sp u = (case sp of None \<Rightarrow> u | Some ps \<Rightarrow> fold setParam ps u)"

text \<open>The \<^verbatim>\<open>URL\<close> object just before \<^verbatim>\<open>url.toString()\<close>.\<close>

definition buildGitLabURL_object ::
  "URL_constructor \<Rightarrow> Prefs \<Rightarrow> string \<Rightarrow> (string \<times> param_value) list option \<Rightarrow> js_error + URL" where
  "buildGitLabURL_object new_URL p path sp =
     (case new_URL (stripLeadingSlash path) (instanceBase p) of
        Inl e \<Rightarrow> Inl e
      | Inr u \<Rightarrow> Inr (applySearchParams sp u))"

definition buildGitLabURL ::
  "URL_constructor \<Rightarrow> Prefs \<Rightarrow> string \<Rightarrow> (string \<times> param_value) list option \<Rightarrow> js_error + string" where
  "buildGitLabURL new_URL p path sp =
     (case buildGitLabURL_object new_URL p path sp of
        Inl e \<Rightarrow> Inl e
      | Inr u \<Rightarrow> Inr (toString u))"

text \<open>
  A small constructor to run the definitions on: it accepts a base that starts with
  \<^verbatim>\<open>http://\<close> or \<^verbatim>\<open>https://\<close>, appends the relative path and starts with an empty
  query, and throws on any other base, as the platform's does on a base without a scheme
  (\<^verbatim>\<open>new URL("api/v4/merge_requests", "gitlab.example.com/")\<close> is
  \<^verbatim>\<open>TypeError: Invalid URL\<close>).
\<close>

definition sample_URL :: URL_constructor where
  "sample_URL rel base =
     (if take 7 base = ''http://'' \<or> take 8 base = ''https://''
      then Inr \<lparr>href_base = base @ rel, searchParams = []\<rparr>
      else Inl TypeError)"

section \<open>The merge request list: \<^verbatim>\<open>useMergeRequests\<close> (lines 86 to 125)\<close>

record UseMergeRequestsParams =
  search :: "string option"
  scope :: "string option"
  state :: "string option"
  perPage :: "int option"

text \<open>The object returned when no token is set: \<^verbatim>\<open>data\<close> undefined, not loading, an
  \<^verbatim>\<open>Error\<close> with its message (\<^verbatim>\<open>revalidate\<close> does nothing).\<close>

record Unconfigured =
  data :: "MergeRequest list option"
  isLoading :: bool
  error :: string

text \<open>The arguments of the call \<^verbatim>\<open>useFetch(url, {...})\<close>, which is where the list request
  is handed to the network layer; it is sent when \<^verbatim>\<open>execute\<close> is true.\<close>

record UseFetch_call =
  url_arg :: string
  keepPreviousData :: bool
  execute :: bool
  headers :: "(string \<times> string) list"

datatype hook_result = Returned Unconfigured | UseFetch UseFetch_call

definition searchOf :: "UseMergeRequestsParams \<Rightarrow> string" where
  "searchOf ps = (case search ps of None \<Rightarrow> [] | Some s \<Rightarrow> s)"

definition scopeOf :: "UseMergeRequestsParams \<Rightarrow> string" where
  "scopeOf ps = (case scope ps of None \<Rightarrow> ''assigned_to_me'' | Some s \<Rightarrow> s)"

definition stateOf :: "UseMergeRequestsParams \<Rightarrow> string" where
  "stateOf ps = (case state ps of None \<Rightarrow> ''opened'' | Some s \<Rightarrow> s)"

definition perPageOf :: "UseMergeRequestsParams \<Rightarrow> int" where
  "perPageOf ps = (case perPage ps of None \<Rightarrow> 20 | Some n \<Rightarrow> n)"

definition effectiveState :: "UseMergeRequestsParams \<Rightarrow> param_value" where
  "effectiveState ps = (if stateOf ps = ''all'' then Undefined else Str (stateOf ps))"

definition shouldDefer :: "UseMergeRequestsParams \<Rightarrow> bool" where
  "shouldDefer ps = (scopeOf ps = ''all'' \<and> searchOf ps = [])"

text \<open>The object literal of lines 94 to 102, in the order of its keys.\<close>

definition listSearchParams :: "UseMergeRequestsParams \<Rightarrow> (string \<times> param_value) list" where
  "listSearchParams ps =
     [(''search'', if searchOf ps = [] then Undefined else Str (searchOf ps)),
      (''in'', if searchOf ps = [] then Undefined else Str ''title''),
      (''scope'', Str (scopeOf ps)),
      (''state'', effectiveState ps),
      (''order_by'', Str ''updated_at''),
      (''sort'', Str ''desc''),
      (''per_page'', Num (perPageOf ps))]"

definition useMergeRequests ::
  "URL_constructor \<Rightarrow> Prefs \<Rightarrow> UseMergeRequestsParams \<Rightarrow> js_error + hook_result" where
  "useMergeRequests new_URL p ps =
     (case buildGitLabURL new_URL p ''/api/v4/merge_requests'' (Some (listSearchParams ps)) of
        Inl e \<Rightarrow> Inl e
      | Inr u \<Rightarrow>
          if gitlabToken p = []
          then Inr (Returned \<lparr>data = None, isLoading = False,
                              error = ''GitLab token not set in preferences''\<rparr>)
          else Inr (UseFetch \<lparr>url_arg = u, keepPreviousData = True,
                              execute = \<not> shouldDefer ps,
                              headers = [(''PRIVATE-TOKEN'', gitlabToken p)]\<rparr>))"

text \<open>Whether the call hands a list request to the network: only a \<^verbatim>\<open>useFetch\<close> whose
  \<^verbatim>\<open>execute\<close> is true does.\<close>

definition dispatches :: "js_error + hook_result \<Rightarrow> bool" where
  "dispatches r = (case r of Inr (UseFetch c) \<Rightarrow> execute c | _ \<Rightarrow> False)"

section \<open>The approvals hook: \<^verbatim>\<open>useApprovals\<close> (lines 157 to 221)\<close>

subsection \<open>One lookup (the function mapped over the subset, lines 169 to 205)\<close>

text \<open>
  What \<^verbatim>\<open>fetch\<close> can do with one request: its promise rejects (no connection, or the
  request was aborted), or it resolves to a response with its \<^verbatim>\<open>ok\<close> flag and a body
  that \<^verbatim>\<open>res.json()\<close> decodes (\<open>Some\<close>) or fails to decode (\<open>None\<close>). The network is
  a function from the URL and the headers of a request to such an outcome.
\<close>

datatype fetch_outcome = Rejected | Response bool "Approvals option"

type_synonym network = "string \<Rightarrow> (string \<times> string) list \<Rightarrow> fetch_outcome"

definition approvalsPath :: "MergeRequest \<Rightarrow> string" where
  "approvalsPath mr =
     ''/api/v4/projects/'' @ String_number (project_id mr) @ ''/merge_requests/''
       @ String_number (iid mr) @ ''/approvals''"

text \<open>The URL the lookup of an item is sent to; \<open>None\<close> when building it throws, which the
  \<^verbatim>\<open>try\<close> catches before anything is sent.\<close>

definition requestURL :: "URL_constructor \<Rightarrow> Prefs \<Rightarrow> MergeRequest \<Rightarrow> string option" where
  "requestURL new_URL p mr =
     (case buildGitLabURL new_URL p (approvalsPath mr) None of
        Inl e \<Rightarrow> None
      | Inr u \<Rightarrow> Some u)"

text \<open>The entry an item's lookup resolves to: \<open>None\<close> is the \<^verbatim>\<open>undefined\<close> of lines
  176 and 203.\<close>

definition lookupItem ::
  "URL_constructor \<Rightarrow> Prefs \<Rightarrow> network \<Rightarrow> MergeRequest \<Rightarrow> (int \<times> bool) option" where
  "lookupItem new_URL p net mr =
     (case requestURL new_URL p mr of
        None \<Rightarrow> None
      | Some u \<Rightarrow>
          (case net u [(''PRIVATE-TOKEN'', gitlabToken p)] of
             Rejected \<Rightarrow> None
           | Response ok body \<Rightarrow>
               if \<not> ok then None
               else (case body of
                       None \<Rightarrow> None
                     | Some json \<Rightarrow> Some (id_mr mr, isApproved json))))"

text \<open>Lines 208 to 211: the map built from the entries, later entries overwriting.\<close>

definition collect :: "(int \<times> bool) option list \<Rightarrow> (int \<rightharpoonup> bool)" where
  "collect es = fold (\<lambda>e m. case e of None \<Rightarrow> m | Some kv \<Rightarrow> m(fst kv \<mapsto> snd kv)) es Map.empty"

subsection \<open>The hook as a state machine\<close>

text \<open>
  The hook's state between renders: the React state \<^verbatim>\<open>approvedMap\<close>, the dependency
  array the effect last ran with, the batches dispatched so far (each with the
  \<^verbatim>\<open>cancelled\<close> flag of its closure), the batch whose cleanup function React holds, and
  the log of the lookups handed to \<^verbatim>\<open>fetch\<close>.
\<close>

record batch =
  subset :: "MergeRequest list"
  batch_prefs :: Prefs
  cancelled :: bool
  settled :: bool

record hook =
  approvedMap :: "int \<rightharpoonup> bool"
  deps :: "(string \<times> string) option"
  cleanup :: "nat option"
  batches :: "batch list"
  requests :: "string list"

definition mounted :: hook where
  "mounted = \<lparr>approvedMap = Map.empty, deps = None, cleanup = None, batches = [], requests = []\<rparr>"

fun join :: "string list \<Rightarrow> string \<Rightarrow> string" where
  "join [] sep = []"
| "join [x] sep = x"
| "join (x # xs) sep = x @ sep @ join xs sep"

text \<open>The dependency array of line 218.\<close>

definition depsOf :: "Prefs \<Rightarrow> MergeRequest list \<Rightarrow> string \<times> string" where
  "depsOf p mrs = (gitlabToken p, join (map (\<lambda>m. String_number (id_mr m)) mrs) '','')"

text \<open>Lines 214 to 217, run by React before the effect runs again.\<close>

definition runCleanup :: "hook \<Rightarrow> hook" where
  "runCleanup s =
     (case cleanup s of
        None \<Rightarrow> s
      | Some i \<Rightarrow> s\<lparr>batches := (batches s)[i := (batches s ! i)\<lparr>cancelled := True\<rparr>],
                     cleanup := None\<rparr>)"

text \<open>Lines 162 to 206, the synchronous part of the effect: the two early returns, the
  subset, and one lookup sent for each item of the subset.\<close>

definition runEffect :: "URL_constructor \<Rightarrow> Prefs \<Rightarrow> MergeRequest list \<Rightarrow> hook \<Rightarrow> hook" where
  "runEffect new_URL p mrs s =
     (if gitlabToken p = [] then s
      else if mrs = [] then s
      else s\<lparr>batches := batches s @
                 [\<lparr>subset = take 25 mrs, batch_prefs = p, cancelled = False, settled = False\<rparr>],
               cleanup := Some (length (batches s)),
               requests := requests s @ List.map_filter (requestURL new_URL p) (take 25 mrs)\<rparr>)"

text \<open>
  A render of the component with the preferences and the list of that render. React
  runs the effect after the first render and after every render whose dependency array
  differs from the one of the effect's last run, and before it runs the effect again it
  calls the cleanup function the last run returned, if it returned one. Aborting the
  controller only makes pending requests reject; what a cancelled batch's requests
  return is left open here, since \<open>batchSettles\<close> takes any network.
\<close>

definition useApprovals :: "URL_constructor \<Rightarrow> Prefs \<Rightarrow> MergeRequest list \<Rightarrow> hook \<Rightarrow> hook" where
  "useApprovals new_URL p mrs s =
     (if deps s = Some (depsOf p mrs) then s
      else runEffect new_URL p mrs ((runCleanup s)\<lparr>deps := Some (depsOf p mrs)\<rparr>))"

text \<open>Lines 207 to 212: the lookups of batch \<open>i\<close> have all resolved, against the network
  \<open>net\<close>; a batch resolves once.\<close>

definition batchSettles :: "URL_constructor \<Rightarrow> nat \<Rightarrow> network \<Rightarrow> hook \<Rightarrow> hook" where
  "batchSettles new_URL i net s =
     (if i < length (batches s) \<and> \<not> settled (batches s ! i)
      then (let b = batches s ! i;
                s' = s\<lparr>batches := (batches s)[i := b\<lparr>settled := True\<rparr>]\<rparr>
            in if cancelled b then s'
               else s'\<lparr>approvedMap :=
                        approvedMap s ++ collect (map (lookupItem new_URL (batch_prefs b) net) (subset b))\<rparr>)
      else s)"

datatype event = Render Prefs "MergeRequest list" | Settle nat network

fun step :: "URL_constructor \<Rightarrow> event \<Rightarrow> hook \<Rightarrow> hook" where
  "step new_URL (Render p mrs) s = useApprovals new_URL p mrs s"
| "step new_URL (Settle i net) s = batchSettles new_URL i net s"

definition run :: "URL_constructor \<Rightarrow> event list \<Rightarrow> hook \<Rightarrow> hook" where
  "run new_URL evs s = fold (step new_URL) evs s"

text \<open>Values to run the hook on: a merge request with a given \<^verbatim>\<open>id\<close>, and a server that
  answers every lookup with one recorded approval.\<close>

definition sampleMR :: "int \<Rightarrow> MergeRequest" where
  "sampleMR i =
     \<lparr>id_mr = i, iid = i, project_id = 1, title = ''t'', description = [], state_mr = ''opened'',
      created_at = [], updated_at = [], merged_at = None, web_url = [],
      author = \<lparr>user_id = 1, name = ''ann'', username = ''ann'', avatar_url = None\<rparr>,
      reviewers = None, head_pipeline = None, approved_mr = None, source_branch = ''b'',
      target_branch = ''main'', draft = False, work_in_progress = None,
      approvals_required_mr = None, upvotes = 0, downvotes = 0\<rparr>"

definition approvingServer :: network where
  "approvingServer u hs =
     Response True (Some \<lparr>approved = Some True, approvals_left = Some 0,
                           approvals_required = Some 1, approved_by = Some [Some (1, ''ann'')]\<rparr>)"

definition samplePrefs :: Prefs where
  "samplePrefs = \<lparr>gitlabInstance = ''https://gitlab.example.com'', gitlabToken = ''glpat''\<rparr>"

subsection \<open>Predicates on the hook's state\<close>

text \<open>Every batch but the one whose cleanup React holds has been cancelled, and that one
  is the batch dispatched last.\<close>

definition one_live :: "hook \<Rightarrow> bool" where
  "one_live s =
     ((\<forall>i < length (batches s). cleanup s \<noteq> Some i \<longrightarrow> cancelled (batches s ! i))
      \<and> (\<forall>i. cleanup s = Some i \<longrightarrow> Suc i = length (batches s)))"

text \<open>The first \<open>n\<close> batches have been cancelled.\<close>

definition stale :: "nat \<Rightarrow> hook \<Rightarrow> bool" where
  "stale n s = (n \<le> length (batches s) \<and> (\<forall>i < n. cancelled (batches s ! i)))"

text \<open>A server that answers every lookup with a status outside 200 to 299, and one that
  does so for merge request 7 only.\<close>

definition failingServer :: network where
  "failingServer u hs = Response False None"

definition flakyServer :: network where
  "flakyServer u hs =
     (if u = ''https://gitlab.example.com/api/v4/projects/1/merge_requests/7/approvals''
      then Response False None else approvingServer u hs)"

section \<open>The approval heuristic\<close>

text \<open>
  C1. Whenever \<^verbatim>\<open>approvals_required\<close> is positive and \<^verbatim>\<open>approvals_left\<close> is zero, the
  resolved flag is true exactly when \<^verbatim>\<open>approved_by\<close> holds at least one approver. An
  empty or absent \<^verbatim>\<open>approved_by\<close> gives false whatever the server's \<^verbatim>\<open>approved\<close> says.
\<close>

theorem isApproved_required_none_left:
  assumes "approvals_required json = Some r" and "r > 0"
    and "approvals_left json = Some 0"
  shows "isApproved json \<longleftrightarrow> (\<exists>xs. approved_by json = Some xs \<and> xs \<noteq> [])"
  using assms
  by (auto simp: isApproved_def primaryApproved_def approvalsRequired_def approvalsLeft_def
      approversCount_def split: option.splits)

theorem isApproved_required_none_left_witness:
  "isApproved \<lparr>approved = Some True, approvals_left = Some 0, approvals_required = Some 1,
               approved_by = Some []\<rparr> = False
   \<and> isApproved \<lparr>approved = Some False, approvals_left = Some 0, approvals_required = Some 1,
                 approved_by = Some [Some (7, ''ann'')]\<rparr> = True"
  using isApproved_required_none_left
          [of "\<lparr>approved = Some True, approvals_left = Some 0, approvals_required = Some 1,
                approved_by = Some []\<rparr>" 1]
        isApproved_required_none_left
          [of "\<lparr>approved = Some False, approvals_left = Some 0, approvals_required = Some 1,
                approved_by = Some [Some (7, ''ann'')]\<rparr>" 1]
  by simp

text \<open>
  C2. When \<^verbatim>\<open>approvals_required\<close> is zero or absent and no approver is recorded
  (\<^verbatim>\<open>approved_by\<close> empty or absent), the resolved flag is false, whatever the server
  reports in \<^verbatim>\<open>approved\<close> and \<^verbatim>\<open>approvals_left\<close>.
\<close>

theorem isApproved_none_required_no_approver:
  assumes "approvals_required json = None \<or> approvals_required json = Some 0"
    and "approved_by json = None \<or> approved_by json = Some []"
  shows "\<not> isApproved json"
  using assms
  by (auto simp: isApproved_def primaryApproved_def approvalsRequired_def approversCount_def)

theorem isApproved_none_required_no_approver_witness:
  "\<not> isApproved \<lparr>approved = Some True, approvals_left = Some 0, approvals_required = Some 0,
                  approved_by = Some []\<rparr>
   \<and> \<not> isApproved \<lparr>approved = Some True, approvals_left = None, approvals_required = None,
                    approved_by = Some []\<rparr>"
  using isApproved_none_required_no_approver
          [of "\<lparr>approved = Some True, approvals_left = Some 0, approvals_required = Some 0,
                approved_by = Some []\<rparr>"]
        isApproved_none_required_no_approver
          [of "\<lparr>approved = Some True, approvals_left = None, approvals_required = None,
                approved_by = Some []\<rparr>"]
  by simp

text \<open>
  C3. The fallback: when the first rule leaves the flag false, the server reports
  \<^verbatim>\<open>approved\<close> true and at least one approver is recorded, the resolved flag is true. So
  \<^verbatim>\<open>approvals_required\<close> 2, \<^verbatim>\<open>approvals_left\<close> absent, \<^verbatim>\<open>approved\<close> true and one
  approver resolve to true, although the first rule alone says false there.
\<close>

theorem isApproved_fallback:
  "(\<not> primaryApproved json \<and> approved json = Some True \<and> approversCount json > 0
      \<longrightarrow> isApproved json)
   \<and> \<not> primaryApproved \<lparr>approved = Some True, approvals_left = None,
                          approvals_required = Some 2, approved_by = Some [a]\<rparr>
   \<and> isApproved \<lparr>approved = Some True, approvals_left = None,
                  approvals_required = Some 2, approved_by = Some [a]\<rparr>"
  by (simp add: isApproved_def primaryApproved_def approvalsRequired_def approvalsLeft_def
      approversCount_def)

theorem isApproved_fallback_witness:
  "\<not> primaryApproved \<lparr>approved = Some True, approvals_left = None,
                        approvals_required = Some 2, approved_by = Some [Some (7, ''ann'')]\<rparr>
   \<and> approversCount \<lparr>approved = Some True, approvals_left = None,
                      approvals_required = Some 2, approved_by = Some [Some (7, ''ann'')]\<rparr> = 1
   \<and> isApproved \<lparr>approved = Some True, approvals_left = None,
                  approvals_required = Some 2, approved_by = Some [Some (7, ''ann'')]\<rparr>"
  using isApproved_fallback
          [of "\<lparr>approved = Some True, approvals_left = None,
                approvals_required = Some 2, approved_by = Some [Some (7, ''ann'')]\<rparr>"
              "Some (7, ''ann'')"]
  by (simp add: approversCount_def)

section \<open>Building URLs\<close>

subsection \<open>What the loop over the parameters leaves in the query\<close>

lemma keys_sp_set: "fst ` set (sp_set k v ps) = insert k (fst ` set ps)"
  by (induction ps) auto

lemma pairs_sp_set: "q \<in> set (sp_set k v ps) \<Longrightarrow> q = (k, v) \<or> q \<in> set ps"
  by (induction ps) (auto split: if_splits)

lemma digits_nonempty: "digits n \<noteq> []"
  by (subst digits.simps) simp

lemma String_value_nonempty: "\<not> skipped v \<Longrightarrow> String_value v \<noteq> []"
  by (cases v) (auto simp: skipped_def String_value_def String_number_def digits_nonempty)

lemma keys_setParam:
  "fst ` set (searchParams (setParam kv u)) =
     fst ` set (searchParams u) \<union> (if skipped (snd kv) then {} else {fst kv})"
  by (simp add: setParam_def keys_sp_set)

lemma keys_fold_setParam:
  "fst ` set (searchParams (fold setParam ps u)) =
     fst ` set (searchParams u) \<union> {k. \<exists>v. (k, v) \<in> set ps \<and> \<not> skipped v}"
proof (induction ps arbitrary: u)
  case Nil
  then show ?case by simp
next
  case (Cons kv ps)
  show ?case
    unfolding fold_simps Cons.IH keys_setParam
    by (cases kv) auto
qed

lemma values_setParam:
  "q \<in> set (searchParams (setParam kv u)) \<Longrightarrow> q \<in> set (searchParams u) \<or> snd q \<noteq> []"
  by (auto simp: setParam_def String_value_nonempty dest!: pairs_sp_set split: if_splits)

lemma values_fold_setParam:
  "q \<in> set (searchParams (fold setParam ps u)) \<Longrightarrow> q \<in> set (searchParams u) \<or> snd q \<noteq> []"
proof (induction ps arbitrary: u)
  case Nil
  then show ?case by simp
next
  case (Cons kv ps)
  from Cons.prems have "q \<in> set (searchParams (fold setParam ps (setParam kv u)))" by simp
  then have "q \<in> set (searchParams (setParam kv u)) \<or> snd q \<noteq> []" by (rule Cons.IH)
  then show ?case using values_setParam by blast
qed

lemma state_all_skipped:
  "state q = Some ''all'' \<Longrightarrow> (k, v) \<in> set (listSearchParams q) \<Longrightarrow> k = ''state'' \<Longrightarrow> skipped v"
  by (auto simp: listSearchParams_def effectiveState_def stateOf_def skipped_def)

text \<open>
  C6. Take a URL object that the constructor returns with an empty query, as it does for
  a path without a query part. Then a key of the parameter object whose value is
  \<^verbatim>\<open>undefined\<close>, \<^verbatim>\<open>null\<close> or the empty string is no key of the built query, no pair
  of the built query has an empty value, and the merge request list called with state
  \<^verbatim>\<open>all\<close> builds a query without the key \<^verbatim>\<open>state\<close>.
\<close>

theorem buildGitLabURL_omits_empty:
  assumes "new_URL (stripLeadingSlash path) (instanceBase p) = Inr u0"
    and "searchParams u0 = []"
  shows "\<exists>u. buildGitLabURL_object new_URL p path (Some ps) = Inr u
           \<and> buildGitLabURL new_URL p path (Some ps) = Inr (toString u)
           \<and> (\<forall>k. (\<forall>v. (k, v) \<in> set ps \<longrightarrow> skipped v) \<longrightarrow> k \<notin> fst ` set (searchParams u))
           \<and> (\<forall>q \<in> set (searchParams u). snd q \<noteq> [])
           \<and> (ps = listSearchParams params \<and> state params = Some ''all''
                \<longrightarrow> ''state'' \<notin> fst ` set (searchParams u))"
proof -
  let ?u = "fold setParam ps u0"
  have obj: "buildGitLabURL_object new_URL p path (Some ps) = Inr ?u"
    using assms(1) by (simp add: buildGitLabURL_object_def applySearchParams_def)
  have str: "buildGitLabURL new_URL p path (Some ps) = Inr (toString ?u)"
    using obj by (simp add: buildGitLabURL_def)
  have keys: "fst ` set (searchParams ?u) = {k. \<exists>v. (k, v) \<in> set ps \<and> \<not> skipped v}"
    using assms(2) by (simp add: keys_fold_setParam)
  have omit: "\<forall>k. (\<forall>v. (k, v) \<in> set ps \<longrightarrow> skipped v) \<longrightarrow> k \<notin> fst ` set (searchParams ?u)"
    unfolding keys by blast
  have vals: "\<forall>q \<in> set (searchParams ?u). snd q \<noteq> []"
    using values_fold_setParam [of _ ps u0] assms(2) by auto
  have st: "ps = listSearchParams params \<and> state params = Some ''all''
              \<longrightarrow> ''state'' \<notin> fst ` set (searchParams ?u)"
    unfolding keys using state_all_skipped by blast
  from obj str omit vals st show ?thesis by blast
qed


theorem buildGitLabURL_omits_empty_witness:
  "\<exists>u. buildGitLabURL sample_URL
          \<lparr>gitlabInstance = ''https://gitlab.com'', gitlabToken = ''t''\<rparr>
          ''/api/v4/merge_requests''
          (Some (listSearchParams
             \<lparr>search = Some [], scope = None, state = Some ''all'', perPage = None\<rparr>))
        = Inr (toString u)
      \<and> ''state'' \<notin> fst ` set (searchParams u)
      \<and> ''search'' \<notin> fst ` set (searchParams u)
      \<and> ''in'' \<notin> fst ` set (searchParams u)
      \<and> ''scope'' \<in> fst ` set (searchParams u)"
proof -
  let ?p = "\<lparr>gitlabInstance = ''https://gitlab.com'', gitlabToken = ''t''\<rparr>"
  let ?q = "\<lparr>search = Some [], scope = None, state = Some ''all'', perPage = None\<rparr>"
  let ?u0 = "\<lparr>href_base = ''https://gitlab.com/api/v4/merge_requests'', searchParams = []\<rparr>"
  have c: "sample_URL (stripLeadingSlash ''/api/v4/merge_requests'') (instanceBase ?p) = Inr ?u0"
    by (simp add: sample_URL_def stripLeadingSlash_def instanceBase_def endsWith_def)
  have e: "searchParams ?u0 = []" by simp
  from buildGitLabURL_omits_empty
         [where new_URL = sample_URL and path = "''/api/v4/merge_requests''" and p = ?p
            and ?u0.0 = ?u0 and ps = "listSearchParams ?q" and params = ?q, OF c e]
  obtain u where u: "buildGitLabURL_object sample_URL ?p ''/api/v4/merge_requests'' (Some (listSearchParams ?q)) = Inr u"
    "buildGitLabURL sample_URL ?p ''/api/v4/merge_requests'' (Some (listSearchParams ?q)) = Inr (toString u)"
    "\<forall>k. (\<forall>v. (k, v) \<in> set (listSearchParams ?q) \<longrightarrow> skipped v) \<longrightarrow> k \<notin> fst ` set (searchParams u)"
    "''state'' \<notin> fst ` set (searchParams u)"
    by auto
  have s1: "\<forall>v. (''search'', v) \<in> set (listSearchParams ?q) \<longrightarrow> skipped v"
    by (simp add: listSearchParams_def searchOf_def skipped_def)
  have s2: "\<forall>v. (''in'', v) \<in> set (listSearchParams ?q) \<longrightarrow> skipped v"
    by (simp add: listSearchParams_def searchOf_def skipped_def)
  have "(''scope'', Str ''assigned_to_me'') \<in> set (listSearchParams ?q)"
    by (simp add: listSearchParams_def scopeOf_def)
  then have "''scope'' \<in> fst ` set (searchParams (fold setParam (listSearchParams ?q) ?u0))"
    unfolding keys_fold_setParam by (auto simp: skipped_def)
  moreover have "u = fold setParam (listSearchParams ?q) ?u0"
    using u(1) unfolding buildGitLabURL_object_def c by (simp add: applySearchParams_def)
  ultimately have s3: "''scope'' \<in> fst ` set (searchParams u)"
    by (simp only:)
  from u s1 s2 s3 show ?thesis by blast
qed

text \<open>
  C10. The built URL does not depend on a trailing slash of the configured instance nor
  on a leading slash of the path: for an instance \<open>inst\<close> that does not end with a slash
  and a path that does not begin with one, \<open>inst\<close> and \<open>inst/\<close>, and \<open>path\<close> and
  \<open>/path\<close>, give the same result in every combination, for every parameter object (and
  the same error when the constructor throws).
\<close>

theorem buildGitLabURL_slashes:
  assumes "\<not> endsWith inst ''/''" and "take 1 path \<noteq> ''/''"
  shows "buildGitLabURL new_URL (p\<lparr>gitlabInstance := inst @ ''/''\<rparr>) path sp
           = buildGitLabURL new_URL (p\<lparr>gitlabInstance := inst\<rparr>) path sp
         \<and> buildGitLabURL new_URL (p\<lparr>gitlabInstance := inst\<rparr>) (CHR ''/'' # path) sp
           = buildGitLabURL new_URL (p\<lparr>gitlabInstance := inst\<rparr>) path sp
         \<and> buildGitLabURL new_URL (p\<lparr>gitlabInstance := inst @ ''/''\<rparr>) (CHR ''/'' # path) sp
           = buildGitLabURL new_URL (p\<lparr>gitlabInstance := inst\<rparr>) path sp"
proof -
  have b: "instanceBase (p\<lparr>gitlabInstance := inst @ ''/''\<rparr>) = instanceBase (p\<lparr>gitlabInstance := inst\<rparr>)"
    using assms(1) by (simp add: instanceBase_def endsWith_def)
  have s: "stripLeadingSlash (CHR ''/'' # path) = stripLeadingSlash path"
    using assms(2) by (cases path) (simp_all add: stripLeadingSlash_def)
  show ?thesis
    by (simp add: buildGitLabURL_def buildGitLabURL_object_def b s)
qed

theorem buildGitLabURL_slashes_witness:
  "buildGitLabURL sample_URL \<lparr>gitlabInstance = ''https://gitlab.example.com/'', gitlabToken = ''glpat''\<rparr>
      ''/api/v4/merge_requests'' (Some [(''scope'', Str ''all''), (''state'', Undefined)])
     = Inr ''https://gitlab.example.com/api/v4/merge_requests?scope=all''
   \<and> buildGitLabURL sample_URL \<lparr>gitlabInstance = ''https://gitlab.example.com'', gitlabToken = ''glpat''\<rparr>
      ''api/v4/merge_requests'' (Some [(''scope'', Str ''all''), (''state'', Undefined)])
     = Inr ''https://gitlab.example.com/api/v4/merge_requests?scope=all''"
proof -
  have e: "\<not> endsWith ''https://gitlab.example.com'' ''/''" by (simp add: endsWith_def)
  have t: "take 1 ''api/v4/merge_requests'' \<noteq> ''/''" by simp
  have v: "buildGitLabURL sample_URL \<lparr>gitlabInstance = ''https://gitlab.example.com'', gitlabToken = ''glpat''\<rparr>
      ''api/v4/merge_requests'' (Some [(''scope'', Str ''all''), (''state'', Undefined)])
     = Inr ''https://gitlab.example.com/api/v4/merge_requests?scope=all''"
    by code_simp
  show ?thesis
    using v buildGitLabURL_slashes [OF e t, of sample_URL
        "\<lparr>gitlabInstance = ''https://gitlab.example.com'', gitlabToken = ''glpat''\<rparr>"
        "Some [(''scope'', Str ''all''), (''state'', Undefined)]"]
    by simp
qed

section \<open>The merge request list\<close>

lemma buildGitLabURL_throws:
  "new_URL (stripLeadingSlash path) (instanceBase p) = Inl e \<Longrightarrow> buildGitLabURL new_URL p path sp = Inl e"
  by (simp add: buildGitLabURL_def buildGitLabURL_object_def)

lemma buildGitLabURL_returns:
  "new_URL (stripLeadingSlash path) (instanceBase p) = Inr u \<Longrightarrow>
     buildGitLabURL new_URL p path sp = Inr (toString (applySearchParams sp u))"
  by (simp add: buildGitLabURL_def buildGitLabURL_object_def)

lemma list_path: "stripLeadingSlash ''/api/v4/merge_requests'' = ''api/v4/merge_requests''"
  by (simp add: stripLeadingSlash_def)

lemma useMergeRequests_throws:
  "new_URL ''api/v4/merge_requests'' (instanceBase p) = Inl e \<Longrightarrow> useMergeRequests new_URL p ps = Inl e"
  by (simp add: useMergeRequests_def buildGitLabURL_throws list_path)

lemma useMergeRequests_no_token:
  assumes "new_URL ''api/v4/merge_requests'' (instanceBase p) = Inr u" and "gitlabToken p = []"
  shows "useMergeRequests new_URL p ps =
           Inr (Returned \<lparr>data = None, isLoading = False,
                          error = ''GitLab token not set in preferences''\<rparr>)"
  using assms by (simp add: useMergeRequests_def buildGitLabURL_returns list_path)

lemma useMergeRequests_token:
  assumes "new_URL ''api/v4/merge_requests'' (instanceBase p) = Inr u" and "gitlabToken p \<noteq> []"
  shows "useMergeRequests new_URL p ps =
           Inr (UseFetch \<lparr>url_arg = toString (applySearchParams (Some (listSearchParams ps)) u),
                          keepPreviousData = True, execute = \<not> shouldDefer ps,
                          headers = [(''PRIVATE-TOKEN'', gitlabToken p)]\<rparr>)"
  using assms by (simp add: useMergeRequests_def buildGitLabURL_returns list_path)

lemma useMergeRequests_UseFetch_execute:
  "useMergeRequests new_URL p ps = Inr (UseFetch c) \<Longrightarrow> execute c = (\<not> shouldDefer ps)"
  by (auto simp: useMergeRequests_def split: sum.splits if_splits)

text \<open>
  C7, as the code has it. With scope \<^verbatim>\<open>all\<close> and an empty search text no list request
  is handed to the network, in every configuration. Whenever the hook reaches
  \<^verbatim>\<open>useFetch\<close>, the \<^verbatim>\<open>execute\<close> flag is false in exactly that case. With a token
  configured and an instance the URL constructor accepts, the request is sent for every
  other combination of scope and search text.
\<close>

theorem useMergeRequests_defers:
  "(scopeOf ps = ''all'' \<and> searchOf ps = [] \<longrightarrow> \<not> dispatches (useMergeRequests new_URL p ps))
   \<and> (\<forall>c. useMergeRequests new_URL p ps = Inr (UseFetch c)
          \<longrightarrow> execute c = (\<not> (scopeOf ps = ''all'' \<and> searchOf ps = [])))
   \<and> (gitlabToken p \<noteq> [] \<and> new_URL ''api/v4/merge_requests'' (instanceBase p) = Inr u
        \<longrightarrow> dispatches (useMergeRequests new_URL p ps)
              = (\<not> (scopeOf ps = ''all'' \<and> searchOf ps = [])))"
proof (intro conjI impI allI)
  assume "scopeOf ps = ''all'' \<and> searchOf ps = []"
  then have "shouldDefer ps" by (simp add: shouldDefer_def)
  then show "\<not> dispatches (useMergeRequests new_URL p ps)"
    by (auto simp: dispatches_def split: sum.splits hook_result.splits
        dest: useMergeRequests_UseFetch_execute)
next
  fix c assume "useMergeRequests new_URL p ps = Inr (UseFetch c)"
  then show "execute c = (\<not> (scopeOf ps = ''all'' \<and> searchOf ps = []))"
    by (simp add: useMergeRequests_UseFetch_execute shouldDefer_def)
next
  assume "gitlabToken p \<noteq> [] \<and> new_URL ''api/v4/merge_requests'' (instanceBase p) = Inr u"
  then show "dispatches (useMergeRequests new_URL p ps)
               = (\<not> (scopeOf ps = ''all'' \<and> searchOf ps = []))"
    by (simp add: useMergeRequests_token dispatches_def shouldDefer_def)
qed

theorem useMergeRequests_defers_witness:
  "\<not> dispatches (useMergeRequests sample_URL samplePrefs
        \<lparr>search = Some [], scope = Some ''all'', state = None, perPage = None\<rparr>)
   \<and> dispatches (useMergeRequests sample_URL samplePrefs
        \<lparr>search = Some ''fix'', scope = Some ''all'', state = None, perPage = None\<rparr>)
   \<and> dispatches (useMergeRequests sample_URL samplePrefs
        \<lparr>search = None, scope = None, state = None, perPage = None\<rparr>)"
proof -
  let ?u = "\<lparr>href_base = ''https://gitlab.example.com/api/v4/merge_requests'', searchParams = []\<rparr>"
  have u: "gitlabToken samplePrefs \<noteq> []
           \<and> sample_URL ''api/v4/merge_requests'' (instanceBase samplePrefs) = Inr ?u"
    by (simp add: samplePrefs_def sample_URL_def instanceBase_def endsWith_def)
  show ?thesis
    using u
      useMergeRequests_defers [of "\<lparr>search = Some [], scope = Some ''all'', state = None, perPage = None\<rparr>"
         sample_URL samplePrefs ?u]
      useMergeRequests_defers [of "\<lparr>search = Some ''fix'', scope = Some ''all'', state = None, perPage = None\<rparr>"
         sample_URL samplePrefs ?u]
      useMergeRequests_defers [of "\<lparr>search = None, scope = None, state = None, perPage = None\<rparr>"
         sample_URL samplePrefs ?u]
    by (simp add: scopeOf_def searchOf_def)
qed

text \<open>
  The claim as stated, that every other combination executes, fails without a token:
  scope \<^verbatim>\<open>assigned_to_me\<close> with a search text sends nothing when the token is empty,
  because of the guard of lines 104 to 111.
\<close>

theorem useMergeRequests_no_token_not_dispatched:
  "scopeOf \<lparr>search = Some ''fix'', scope = Some ''assigned_to_me'', state = None, perPage = None\<rparr>
     = ''assigned_to_me''
   \<and> searchOf \<lparr>search = Some ''fix'', scope = Some ''assigned_to_me'', state = None, perPage = None\<rparr>
     = ''fix''
   \<and> \<not> dispatches (useMergeRequests sample_URL
          \<lparr>gitlabInstance = ''https://gitlab.example.com'', gitlabToken = []\<rparr>
          \<lparr>search = Some ''fix'', scope = Some ''assigned_to_me'', state = None, perPage = None\<rparr>)"
  by (simp add: scopeOf_def searchOf_def dispatches_def useMergeRequests_def buildGitLabURL_def
      buildGitLabURL_object_def sample_URL_def instanceBase_def endsWith_def stripLeadingSlash_def)

text \<open>
  C9. Without a token the hook should return the error object and send nothing. The URL
  is built on line 94, before the token is looked at on line 104, so for an instance
  the URL constructor rejects (here one without a scheme) the call throws the
  constructor's \<^verbatim>\<open>TypeError\<close> and the error object is never returned. The lemma
  \<open>useMergeRequests_no_token\<close> above is the case that works: an accepted instance.
\<close>

theorem useMergeRequests_throws_before_token_check:
  "useMergeRequests sample_URL \<lparr>gitlabInstance = ''gitlab.example.com'', gitlabToken = []\<rparr>
     \<lparr>search = None, scope = None, state = None, perPage = None\<rparr> = Inl TypeError"
  by (simp add: useMergeRequests_def buildGitLabURL_def buildGitLabURL_object_def sample_URL_def
      instanceBase_def endsWith_def stripLeadingSlash_def)

section \<open>The approvals hook\<close>

subsection \<open>The map built from the entries\<close>

lemma fold_put_dom:
  "dom (fold (\<lambda>e m. case e of None \<Rightarrow> m | Some kv \<Rightarrow> m(fst kv \<mapsto> snd kv)) es m)
     = dom m \<union> {k. \<exists>v. Some (k, v) \<in> set es}"
  by (induction es arbitrary: m) (auto split: option.splits)

lemma dom_collect: "dom (collect es) = {k. \<exists>v. Some (k, v) \<in> set es}"
  by (simp add: collect_def fold_put_dom)

lemma fold_put_filter:
  "fold (\<lambda>e m. case e of None \<Rightarrow> m | Some kv \<Rightarrow> m(fst kv \<mapsto> snd kv)) es m
     = fold (\<lambda>e m. case e of None \<Rightarrow> m | Some kv \<Rightarrow> m(fst kv \<mapsto> snd kv)) (filter (\<lambda>e. e \<noteq> None) es) m"
  by (induction es arbitrary: m) (auto split: option.splits)

lemma collect_filter: "collect es = collect (filter (\<lambda>e. e \<noteq> None) es)"
  unfolding collect_def by (rule fold_put_filter)

lemma fold_put_absent:
  "\<forall>v. Some (k, v) \<notin> set es \<Longrightarrow>
     fold (\<lambda>e m. case e of None \<Rightarrow> m | Some kv \<Rightarrow> m(fst kv \<mapsto> snd kv)) es m k = m k"
proof (induction es arbitrary: m)
  case Nil
  then show ?case by simp
next
  case (Cons e es)
  from Cons.prems have rest: "\<forall>v. Some (k, v) \<notin> set es" by simp
  show ?case
  proof (cases e)
    case None
    then show ?thesis using Cons.IH [OF rest] by simp
  next
    case (Some kv)
    with Cons.prems have neq: "fst kv \<noteq> k" by (cases kv) auto
    have "fold (\<lambda>e m. case e of None \<Rightarrow> m | Some kv \<Rightarrow> m(fst kv \<mapsto> snd kv)) (e # es) m k
            = fold (\<lambda>e m. case e of None \<Rightarrow> m | Some kv \<Rightarrow> m(fst kv \<mapsto> snd kv)) es
                (m(fst kv \<mapsto> snd kv)) k"
      by (simp add: Some)
    also have "\<dots> = (m(fst kv \<mapsto> snd kv)) k" by (rule Cons.IH [OF rest])
    also have "\<dots> = m k" using neq by simp
    finally show ?thesis .
  qed
qed

lemma fold_put_unique:
  "Some (k, v) \<in> set es \<Longrightarrow> \<forall>w. Some (k, w) \<in> set es \<longrightarrow> w = v \<Longrightarrow>
     fold (\<lambda>e m. case e of None \<Rightarrow> m | Some kv \<Rightarrow> m(fst kv \<mapsto> snd kv)) es m k = Some v"
proof (induction es arbitrary: m)
  case Nil
  then show ?case by simp
next
  case (Cons e es)
  from Cons.prems(2) have u: "\<forall>w. Some (k, w) \<in> set es \<longrightarrow> w = v" by simp
  show ?case
  proof (cases "Some (k, v) \<in> set es")
    case True
    from Cons.IH [OF True u] show ?thesis by simp
  next
    case False
    with Cons.prems(1) have e: "e = Some (k, v)" by simp
    from False u have "\<forall>w. Some (k, w) \<notin> set es" by blast
    then show ?thesis by (simp add: e fold_put_absent)
  qed
qed

lemma collect_absent: "\<forall>v. Some (k, v) \<notin> set es \<Longrightarrow> collect es k = None"
  by (simp add: collect_def fold_put_absent)

lemma collect_unique:
  "Some (k, v) \<in> set es \<Longrightarrow> \<forall>w. Some (k, w) \<in> set es \<longrightarrow> w = v \<Longrightarrow> collect es k = Some v"
  unfolding collect_def by (rule fold_put_unique)

subsection \<open>Lookups and settling\<close>

lemma lookupItem_key: "lookupItem new_URL p net m = Some (k, v) \<Longrightarrow> k = id_mr m"
  by (auto simp: lookupItem_def split: option.splits fetch_outcome.splits if_splits)

lemma lookupItem_fails:
  "lookupItem new_URL p net m = None \<longleftrightarrow>
     (case requestURL new_URL p m of
        None \<Rightarrow> True
      | Some u \<Rightarrow> net u [(''PRIVATE-TOKEN'', gitlabToken p)] = Rejected
                  \<or> (\<exists>body. net u [(''PRIVATE-TOKEN'', gitlabToken p)] = Response False body)
                  \<or> net u [(''PRIVATE-TOKEN'', gitlabToken p)] = Response True None)"
  by (auto simp: lookupItem_def split: option.splits fetch_outcome.splits if_splits)

lemma batchSettles_live:
  "i < length (batches s) \<Longrightarrow> \<not> settled (batches s ! i) \<Longrightarrow> \<not> cancelled (batches s ! i) \<Longrightarrow>
     approvedMap (batchSettles new_URL i net s)
       = approvedMap s ++ collect (map (lookupItem new_URL (batch_prefs (batches s ! i)) net)
                                       (subset (batches s ! i)))"
  by (simp add: batchSettles_def Let_def)

lemma batchSettles_cases:
  "approvedMap (batchSettles new_URL i net s) = approvedMap s
   \<or> (i < length (batches s) \<and> \<not> cancelled (batches s ! i)
      \<and> approvedMap (batchSettles new_URL i net s)
          = approvedMap s ++ collect (map (lookupItem new_URL (batch_prefs (batches s ! i)) net)
                                          (subset (batches s ! i))))"
  by (simp add: batchSettles_def Let_def)

lemma batchSettles_cancelled:
  "i < length (batches s) \<Longrightarrow> cancelled (batches s ! i) \<Longrightarrow>
     approvedMap (batchSettles new_URL i net s) = approvedMap s"
  by (simp add: batchSettles_def Let_def)

lemma batchSettles_beyond:
  "length (batches s) \<le> i \<Longrightarrow> batchSettles new_URL i net s = s"
  by (simp add: batchSettles_def)

lemma dom_collect_lookups:
  "dom (collect (map (lookupItem new_URL p net) ms)) \<subseteq> id_mr ` set ms"
proof
  fix k assume "k \<in> dom (collect (map (lookupItem new_URL p net) ms))"
  then obtain v where "Some (k, v) \<in> lookupItem new_URL p net ` set ms"
    by (auto simp: dom_collect)
  then obtain m where "m \<in> set ms" and "Some (k, v) = lookupItem new_URL p net m"
    by (rule imageE)
  then show "k \<in> id_mr ` set ms" using lookupItem_key [of new_URL p net m k v] by simp
qed

lemma batchSettles_dom:
  "k \<in> dom (approvedMap (batchSettles new_URL i net s)) \<Longrightarrow>
     k \<in> dom (approvedMap s) \<or> (i < length (batches s) \<and> k \<in> id_mr ` set (subset (batches s ! i)))"
proof -
  assume k: "k \<in> dom (approvedMap (batchSettles new_URL i net s))"
  from batchSettles_cases [of new_URL i net s] show ?thesis
  proof
    assume "approvedMap (batchSettles new_URL i net s) = approvedMap s"
    with k show ?thesis by simp
  next
    assume a: "i < length (batches s) \<and> \<not> cancelled (batches s ! i)
      \<and> approvedMap (batchSettles new_URL i net s)
          = approvedMap s ++ collect (map (lookupItem new_URL (batch_prefs (batches s ! i)) net)
                                          (subset (batches s ! i)))"
    with k have "k \<in> dom (approvedMap s)
        \<or> k \<in> dom (collect (map (lookupItem new_URL (batch_prefs (batches s ! i)) net)
                                          (subset (batches s ! i))))"
      by auto
    with a dom_collect_lookups show ?thesis by blast
  qed
qed

lemma useApprovals_approvedMap: "approvedMap (useApprovals new_URL p mrs s) = approvedMap s"
  by (simp add: useApprovals_def runEffect_def runCleanup_def split: option.splits)

lemma batches_runCleanup:
  "length (batches (runCleanup s)) = length (batches s)"
  by (simp add: runCleanup_def split: option.splits)

subsection \<open>Renders and the first 25 items\<close>

lemma beyond_prefix_distinct:
  assumes "distinct (map f xs)" and "n \<le> j" and "j < length xs"
  shows "f (xs ! j) \<notin> f ` set (take n xs)"
proof -
  have "distinct (map f (take n xs) @ map f (drop n xs))"
    using assms(1) by (simp flip: map_append)
  then have disj: "f ` set (take n xs) \<inter> f ` set (drop n xs) = {}" by simp
  have "xs ! j = drop n xs ! (j - n)" using assms(2,3) by simp
  moreover have "j - n < length (drop n xs)" using assms(2,3) by simp
  ultimately have "xs ! j \<in> set (drop n xs)" by (metis nth_mem)
  then have "f (xs ! j) \<in> f ` set (drop n xs)" by simp
  with disj show ?thesis by blast
qed

lemma useApprovals_cases:
  "useApprovals new_URL p mrs s = s
   \<or> (batches (useApprovals new_URL p mrs s) = batches (runCleanup s)
      \<and> requests (useApprovals new_URL p mrs s) = requests s
      \<and> cleanup (useApprovals new_URL p mrs s) = None)
   \<or> (batches (useApprovals new_URL p mrs s)
        = batches (runCleanup s)
          @ [\<lparr>subset = take 25 mrs, batch_prefs = p, cancelled = False, settled = False\<rparr>]
      \<and> requests (useApprovals new_URL p mrs s)
          = requests s @ List.map_filter (requestURL new_URL p) (take 25 mrs)
      \<and> cleanup (useApprovals new_URL p mrs s) = Some (length (batches s)))"
proof (cases "deps s = Some (depsOf p mrs)")
  case True
  then show ?thesis by (simp add: useApprovals_def)
next
  case False
  have c: "cleanup (runCleanup s) = None" and r: "requests (runCleanup s) = requests s"
    by (simp_all add: runCleanup_def split: option.splits)
  show ?thesis
  proof (cases "gitlabToken p = [] \<or> mrs = []")
    case True
    with False c r have "batches (useApprovals new_URL p mrs s) = batches (runCleanup s)
      \<and> requests (useApprovals new_URL p mrs s) = requests s
      \<and> cleanup (useApprovals new_URL p mrs s) = None"
      by (auto simp: useApprovals_def runEffect_def)
    then show ?thesis by blast
  next
    case True2: False
    with False c r have "batches (useApprovals new_URL p mrs s)
        = batches (runCleanup s)
          @ [\<lparr>subset = take 25 mrs, batch_prefs = p, cancelled = False, settled = False\<rparr>]
      \<and> requests (useApprovals new_URL p mrs s)
          = requests s @ List.map_filter (requestURL new_URL p) (take 25 mrs)
      \<and> cleanup (useApprovals new_URL p mrs s) = Some (length (batches s))"
      by (auto simp: useApprovals_def runEffect_def batches_runCleanup)
    then show ?thesis by blast
  qed
qed

lemma useApprovals_new_batch_keys:
  assumes "k \<in> dom (approvedMap (batchSettles new_URL (length (batches s)) net
                                    (useApprovals new_URL p mrs s)))"
  shows "k \<in> dom (approvedMap s) \<or> k \<in> id_mr ` set (take 25 mrs)"
proof -
  let ?s1 = "useApprovals new_URL p mrs s"
  let ?n = "length (batches s)"
  from batchSettles_dom [OF assms]
  have "k \<in> dom (approvedMap s)
        \<or> (?n < length (batches ?s1) \<and> k \<in> id_mr ` set (subset (batches ?s1 ! ?n)))"
    by (simp add: useApprovals_approvedMap)
  moreover
  have "?n < length (batches ?s1) \<Longrightarrow> subset (batches ?s1 ! ?n) = take 25 mrs"
    using useApprovals_cases [of new_URL p mrs s]
    by (auto simp: batches_runCleanup nth_append)
  ultimately show ?thesis by auto
qed


text \<open>
  C4, as the code has it. A render sends lookups for the first 25 items of its list
  only (or none). The batch that render dispatches adds to the mapping only keys of these
  25 items: a key of the mapping after the batch was in the mapping before the render or
  is the \<^verbatim>\<open>id\<close> of one of the first 25 items. On a freshly mounted hook and a list
  with distinct ids, no item past position 25 is a key of the mapping, so items 26 to 30
  of a 30-item list are absent.
\<close>

theorem useApprovals_first_25:
  "(requests (useApprovals new_URL p mrs s) = requests s
      \<or> requests (useApprovals new_URL p mrs s)
          = requests s @ List.map_filter (requestURL new_URL p) (take 25 mrs))
   \<and> (\<forall>k \<in> dom (approvedMap (batchSettles new_URL (length (batches s)) net
                                     (useApprovals new_URL p mrs s))).
         k \<in> dom (approvedMap s) \<or> k \<in> id_mr ` set (take 25 mrs))
   \<and> (distinct (map id_mr mrs) \<and> 25 \<le> j \<and> j < length mrs
        \<longrightarrow> id_mr (mrs ! j) \<notin> dom (approvedMap (batchSettles new_URL 0 net
                                                    (useApprovals new_URL p mrs mounted))))"
proof (intro conjI ballI impI)
  show "requests (useApprovals new_URL p mrs s) = requests s
      \<or> requests (useApprovals new_URL p mrs s)
          = requests s @ List.map_filter (requestURL new_URL p) (take 25 mrs)"
    using useApprovals_cases [of new_URL p mrs s] by auto
next
  fix k
  assume "k \<in> dom (approvedMap (batchSettles new_URL (length (batches s)) net
                                    (useApprovals new_URL p mrs s)))"
  then show "k \<in> dom (approvedMap s) \<or> k \<in> id_mr ` set (take 25 mrs)"
    by (rule useApprovals_new_batch_keys)
next
  assume a: "distinct (map id_mr mrs) \<and> 25 \<le> j \<and> j < length mrs"
  show "id_mr (mrs ! j) \<notin> dom (approvedMap (batchSettles new_URL 0 net
                                                (useApprovals new_URL p mrs mounted)))"
  proof
    assume "id_mr (mrs ! j) \<in> dom (approvedMap (batchSettles new_URL 0 net
                                                (useApprovals new_URL p mrs mounted)))"
    then have "id_mr (mrs ! j) \<in> dom (approvedMap (batchSettles new_URL (length (batches mounted)) net
                                                (useApprovals new_URL p mrs mounted)))"
      by (simp add: mounted_def)
    then have "id_mr (mrs ! j) \<in> dom (approvedMap mounted) \<or> id_mr (mrs ! j) \<in> id_mr ` set (take 25 mrs)"
      by (rule useApprovals_new_batch_keys)
    then have "id_mr (mrs ! j) \<in> id_mr ` set (take 25 mrs)" by (simp add: mounted_def)
    with beyond_prefix_distinct [of id_mr mrs 25 j] a show False by blast
  qed
qed

theorem useApprovals_first_25_witness:
  "length (map sampleMR [1..30]) = 30
   \<and> id_mr (map sampleMR [1..30] ! 27) = 28
   \<and> approvedMap (batchSettles sample_URL 0 approvingServer
        (useApprovals sample_URL samplePrefs (map sampleMR [1..30]) mounted)) 28 = None
   \<and> approvedMap (batchSettles sample_URL 0 approvingServer
        (useApprovals sample_URL samplePrefs (map sampleMR [1..30]) mounted)) 25 = Some True
   \<and> length (requests (useApprovals sample_URL samplePrefs (map sampleMR [1..30]) mounted)) = 25"
proof -
  let ?mrs = "map sampleMR [1..30]"
  have d: "distinct (map id_mr ?mrs) \<and> (25::nat) \<le> 27 \<and> 27 < length ?mrs" by code_simp
  have i: "id_mr (?mrs ! 27) = 28" by code_simp
  have l: "length ?mrs = 30" by code_simp
  have p: "approvedMap (batchSettles sample_URL 0 approvingServer
        (useApprovals sample_URL samplePrefs ?mrs mounted)) 25 = Some True" by code_simp
  have r: "length (requests (useApprovals sample_URL samplePrefs ?mrs mounted)) = 25" by code_simp
  from useApprovals_first_25 [of sample_URL samplePrefs ?mrs mounted approvingServer 27] d
  have "id_mr (?mrs ! 27) \<notin> dom (approvedMap (batchSettles sample_URL 0 approvingServer
                                                (useApprovals sample_URL samplePrefs ?mrs mounted)))"
    by blast
  then have "approvedMap (batchSettles sample_URL 0 approvingServer
        (useApprovals sample_URL samplePrefs ?mrs mounted)) 28 = None"
    unfolding i by (simp add: domIff)
  with l i p r show ?thesis by blast
qed


text \<open>
  The claim as stated, that the mapping has no key for any item past position 25 of the
  input list, fails because each batch is merged into the earlier mapping (line 212):
  after a first list that holds only merge request 7, a second list has it at position
  26, and the mapping returned for the second list still has the key 7.
\<close>

theorem approvedMap_keeps_earlier_keys:
  "length (map sampleMR [100..124] @ [sampleMR 7]) = 26
   \<and> id_mr ((map sampleMR [100..124] @ [sampleMR 7]) ! 25) = 7
   \<and> approvedMap (run sample_URL
        [Render samplePrefs [sampleMR 7], Settle 0 approvingServer,
         Render samplePrefs (map sampleMR [100..124] @ [sampleMR 7]), Settle 1 approvingServer]
        mounted) 7 = Some True"
  by code_simp

subsection \<open>Failed lookups\<close>

text \<open>
  C5, as the code has it. Take a batch that settles while it is live, and let \<open>es\<close> be
  the entries of its items; by \<open>lookupItem_fails\<close> an entry is \<^verbatim>\<open>undefined\<close> exactly when
  the URL cannot be built, the request is rejected, the status is not ok or the body
  does not decode. Settling always returns a state (nothing is thrown), and that state's
  mapping is the earlier mapping overwritten by the successful entries alone: an id that
  no successful entry carries keeps what the mapping held for it before the batch, and a
  successful item whose id no other item of the batch shares is mapped to its own result.
\<close>

theorem failed_lookup_contributes_nothing:
  assumes "i < length (batches s)"
    and "\<not> settled (batches s ! i)" and "\<not> cancelled (batches s ! i)"
    and "es = map (lookupItem new_URL (batch_prefs (batches s ! i)) net) (subset (batches s ! i))"
  shows "approvedMap (batchSettles new_URL i net s)
           = approvedMap s ++ collect (filter (\<lambda>e. e \<noteq> None) es)
         \<and> (\<forall>k. (\<forall>v. Some (k, v) \<notin> set es)
               \<longrightarrow> approvedMap (batchSettles new_URL i net s) k = approvedMap s k)
         \<and> (\<forall>m \<in> set (subset (batches s ! i)). \<forall>v.
               lookupItem new_URL (batch_prefs (batches s ! i)) net m = Some (id_mr m, v)
               \<and> (\<forall>m' \<in> set (subset (batches s ! i)). id_mr m' = id_mr m \<longrightarrow> m' = m)
               \<longrightarrow> approvedMap (batchSettles new_URL i net s) (id_mr m) = Some v)"
proof (intro conjI allI ballI impI)
  have live: "approvedMap (batchSettles new_URL i net s) = approvedMap s ++ collect es"
    using assms by (simp add: batchSettles_live)
  show "approvedMap (batchSettles new_URL i net s)
           = approvedMap s ++ collect (filter (\<lambda>e. e \<noteq> None) es)"
    using live collect_filter [of es] by simp
  {
    fix k assume "\<forall>v. Some (k, v) \<notin> set es"
    then have "collect es k = None" by (rule collect_absent)
    then show "approvedMap (batchSettles new_URL i net s) k = approvedMap s k"
      by (simp add: live map_add_def)
  }
  {
    fix m v
    assume m: "m \<in> set (subset (batches s ! i))"
      and a: "lookupItem new_URL (batch_prefs (batches s ! i)) net m = Some (id_mr m, v)
               \<and> (\<forall>m' \<in> set (subset (batches s ! i)). id_mr m' = id_mr m \<longrightarrow> m' = m)"
    have "Some (id_mr m, v) \<in> set es"
      using m a assms(4) by (metis image_eqI list.set_map)
    moreover have "\<forall>w. Some (id_mr m, w) \<in> set es \<longrightarrow> w = v"
    proof (intro allI impI)
      fix w assume "Some (id_mr m, w) \<in> set es"
      then have "Some (id_mr m, w)
                   \<in> lookupItem new_URL (batch_prefs (batches s ! i)) net ` set (subset (batches s ! i))"
        unfolding assms(4) by simp
      then obtain m' where m'0: "m' \<in> set (subset (batches s ! i))"
        "Some (id_mr m, w) = lookupItem new_URL (batch_prefs (batches s ! i)) net m'"
        by (rule imageE)
      note m' = m'0(1) m'0(2) [symmetric]
      from m'(2) have "id_mr m = id_mr m'" by (rule lookupItem_key)
      with a m'(1) have "m' = m" by simp
      with m'(2) a show "w = v" by simp
    qed
    ultimately have "collect es (id_mr m) = Some v" by (rule collect_unique)
    then show "approvedMap (batchSettles new_URL i net s) (id_mr m) = Some v"
      by (simp add: live)
  }
qed

theorem failed_lookup_contributes_nothing_witness:
  "lookupItem sample_URL samplePrefs flakyServer (sampleMR 7) = None
   \<and> approvedMap (batchSettles sample_URL 0 flakyServer
        (useApprovals sample_URL samplePrefs [sampleMR 7, sampleMR 8] mounted)) 7 = None
   \<and> approvedMap (batchSettles sample_URL 0 flakyServer
        (useApprovals sample_URL samplePrefs [sampleMR 7, sampleMR 8] mounted)) 8 = Some True"
proof -
  let ?s = "useApprovals sample_URL samplePrefs [sampleMR 7, sampleMR 8] mounted"
  let ?es = "map (lookupItem sample_URL (batch_prefs (batches ?s ! 0)) flakyServer)
               (subset (batches ?s ! 0))"
  have h1: "0 < length (batches ?s)" by code_simp
  have h2: "\<not> settled (batches ?s ! 0)" by code_simp
  have h3: "\<not> cancelled (batches ?s ! 0)" by code_simp
  have es: "?es = [None, Some (8, True)]" by code_simp
  have f: "lookupItem sample_URL samplePrefs flakyServer (sampleMR 7) = None" by code_simp
  have e: "approvedMap ?s = Map.empty"
    by (simp add: useApprovals_approvedMap mounted_def)
  from failed_lookup_contributes_nothing [OF h1 h2 h3 refl]
  have "approvedMap (batchSettles sample_URL 0 flakyServer ?s)
          = approvedMap ?s ++ collect (filter (\<lambda>e. e \<noteq> None) ?es)"
    by (rule conjunct1)
  then have "approvedMap (batchSettles sample_URL 0 flakyServer ?s)
          = collect [Some (8, True)]"
    unfolding es e by (simp del: not_None_eq)
  then have "approvedMap (batchSettles sample_URL 0 flakyServer ?s) 7 = None
     \<and> approvedMap (batchSettles sample_URL 0 flakyServer ?s) 8 = Some True"
    by (simp add: collect_def)
  with f show ?thesis by blast
qed


text \<open>
  The claim as stated, that an item whose lookup fails is omitted from the returned
  mapping, fails because of the same merge with the earlier mapping: merge request 7 is
  recorded by a first batch, its lookup fails in the batch of the next list, and the
  mapping returned after that batch still maps 7 to true.
\<close>

theorem failed_lookup_keeps_earlier_entry:
  "lookupItem sample_URL samplePrefs failingServer (sampleMR 7) = None
   \<and> approvedMap (run sample_URL
        [Render samplePrefs [sampleMR 7], Settle 0 approvingServer,
         Render samplePrefs [sampleMR 7, sampleMR 8], Settle 1 failingServer]
        mounted) 7 = Some True"
  by code_simp

subsection \<open>Cancelled batches\<close>

lemma cancelled_runCleanup:
  "i < length (batches s) \<Longrightarrow> cancelled (batches s ! i) \<Longrightarrow> cancelled (batches (runCleanup s) ! i)"
proof (cases "cleanup s")
  case None
  assume "cancelled (batches s ! i)"
  with None show ?thesis by (simp add: runCleanup_def)
next
  case (Some j)
  assume "i < length (batches s)" and "cancelled (batches s ! i)"
  then show ?thesis
    by (cases "j = i") (simp_all add: runCleanup_def Some)
qed

lemma runCleanup_all_cancelled:
  assumes "one_live s" and "i < length (batches s)"
  shows "cancelled (batches (runCleanup s) ! i)"
proof (cases "cleanup s = Some i")
  case True
  with assms(2) show ?thesis by (simp add: runCleanup_def)
next
  case False
  with assms have "cancelled (batches s ! i)" by (simp add: one_live_def)
  with assms(2) show ?thesis by (rule cancelled_runCleanup)
qed

lemma useApprovals_length: "length (batches s) \<le> length (batches (useApprovals new_URL p mrs s))"
  using useApprovals_cases [of new_URL p mrs s] by (auto simp: batches_runCleanup)

lemma useApprovals_old_batch:
  assumes "i < length (batches s)"
  shows "batches (useApprovals new_URL p mrs s) ! i = batches s ! i
         \<or> batches (useApprovals new_URL p mrs s) ! i = batches (runCleanup s) ! i"
  using useApprovals_cases [of new_URL p mrs s] assms
  by (auto simp: batches_runCleanup nth_append)

lemma useApprovals_keeps_cancelled:
  assumes "i < length (batches s)" and "cancelled (batches s ! i)"
  shows "cancelled (batches (useApprovals new_URL p mrs s) ! i)"
  using useApprovals_old_batch [OF assms(1), of new_URL p mrs] cancelled_runCleanup [OF assms]
    assms(2) by auto

lemma batchSettles_length: "length (batches (batchSettles new_URL i net s)) = length (batches s)"
  by (simp add: batchSettles_def Let_def)

lemma batchSettles_cleanup: "cleanup (batchSettles new_URL i net s) = cleanup s"
  by (simp add: batchSettles_def Let_def)

lemma batchSettles_flag:
  "j < length (batches s) \<Longrightarrow>
     cancelled (batches (batchSettles new_URL i net s) ! j) = cancelled (batches s ! j)"
  by (simp add: batchSettles_def Let_def nth_list_update)

lemma one_live_mounted: "one_live mounted"
  by (simp add: one_live_def mounted_def)

lemma one_live_batchSettles: "one_live s \<Longrightarrow> one_live (batchSettles new_URL i net s)"
  by (simp add: one_live_def batchSettles_length batchSettles_cleanup batchSettles_flag)

lemma one_live_useApprovals:
  assumes "one_live s"
  shows "one_live (useApprovals new_URL p mrs s)"
proof -
  let ?s1 = "useApprovals new_URL p mrs s"
  let ?b = "\<lparr>subset = take 25 mrs, batch_prefs = p, cancelled = False, settled = False\<rparr>"
  from useApprovals_cases [of new_URL p mrs s] show ?thesis
  proof (elim disjE conjE)
    assume "?s1 = s"
    with assms show ?thesis by simp
  next
    assume "batches ?s1 = batches (runCleanup s)" "cleanup ?s1 = None"
    then show ?thesis
      using runCleanup_all_cancelled [OF assms]
      by (simp add: one_live_def batches_runCleanup)
  next
    assume "batches ?s1 = batches (runCleanup s) @ [?b]" "cleanup ?s1 = Some (length (batches s))"
    then show ?thesis
      using runCleanup_all_cancelled [OF assms]
      by (auto simp: one_live_def batches_runCleanup nth_append less_Suc_eq)
  qed
qed

lemma one_live_step: "one_live s \<Longrightarrow> one_live (step new_URL e s)"
  by (cases e) (simp_all add: one_live_useApprovals one_live_batchSettles)

lemma one_live_run: "one_live s \<Longrightarrow> one_live (run new_URL evs s)"
  unfolding run_def by (induction evs arbitrary: s) (simp_all add: one_live_step)

lemma stale_after_change:
  assumes "one_live s" and "deps s \<noteq> Some (depsOf p mrs)"
  shows "stale (length (batches s)) (useApprovals new_URL p mrs s)"
proof -
  let ?t = "runEffect new_URL p mrs ((runCleanup s)\<lparr>deps := Some (depsOf p mrs)\<rparr>)"
  have eq: "useApprovals new_URL p mrs s = ?t"
    using assms(2) by (simp add: useApprovals_def)
  have "i < length (batches s) \<Longrightarrow> cancelled (batches ?t ! i)" for i
    using runCleanup_all_cancelled [OF assms(1), of i]
    by (simp add: runEffect_def batches_runCleanup nth_append)
  moreover have "length (batches s) \<le> length (batches ?t)"
    by (simp add: runEffect_def batches_runCleanup)
  ultimately show ?thesis unfolding eq stale_def by blast
qed

lemma stale_step: "stale n s \<Longrightarrow> stale n (step new_URL e s)"
proof (cases e)
  case (Render p mrs)
  assume "stale n s"
  then show ?thesis
    using useApprovals_length [of s new_URL p mrs] useApprovals_keeps_cancelled [of _ s new_URL p mrs]
    by (auto simp: stale_def Render)
next
  case (Settle i net)
  assume "stale n s"
  then show ?thesis
    by (simp add: stale_def Settle batchSettles_length batchSettles_flag)
qed

lemma stale_run: "stale n s \<Longrightarrow> stale n (run new_URL evs s)"
  unfolding run_def by (induction evs arbitrary: s) (simp_all add: stale_step)

lemma stale_no_commit:
  "stale n s \<Longrightarrow> i < n \<Longrightarrow> approvedMap (batchSettles new_URL i net s) = approvedMap s"
  by (simp add: stale_def batchSettles_cancelled)

lemma commit_only_latest:
  assumes "one_live s" and "approvedMap (batchSettles new_URL i net s) \<noteq> approvedMap s"
  shows "cleanup s = Some i \<and> Suc i = length (batches s)"
proof -
  from batchSettles_cases [of new_URL i net s] assms(2)
  have "i < length (batches s)" "\<not> cancelled (batches s ! i)" by auto
  with assms(1) show ?thesis by (auto simp: one_live_def)
qed

subsection \<open>The dependency array tells lists with different ids apart\<close>

lemma digit_value_digits: "digit_value (digits n) = n"
proof (induction n rule: digits.induct)
  case (1 n)
  show ?case
  proof (cases "n < 10")
    case True
    then show ?thesis by (subst digits.simps) (simp add: digit_value_def)
  next
    case False
    have "digit_value (digits n) = 10 * digit_value (digits (n div 10)) + n mod 10"
      using False by (subst digits.simps) (simp add: digit_value_def)
    also have "\<dots> = 10 * (n div 10) + n mod 10" using "1.IH" False by simp
    finally show ?thesis by simp
  qed
qed

lemma digits_inj: "digits m = digits n \<Longrightarrow> m = n"
  by (metis digit_value_digits)

lemma digits_chars: "c \<in> set (digits n) \<Longrightarrow> 48 \<le> (of_char c :: nat) \<and> (of_char c :: nat) \<le> 57"
proof (induction n rule: digits.induct)
  case (1 n)
  show ?case
  proof (cases "n < 10")
    case True
    with "1.prems" show ?thesis by (subst (asm) digits.simps) auto
  next
    case False
    from "1.prems" have "c \<in> set (digits (n div 10)) \<or> c = char_of (48 + n mod 10)"
      using False by (subst (asm) digits.simps) auto
    then show ?thesis
    proof
      assume "c \<in> set (digits (n div 10))"
      with "1.IH" False show ?thesis by simp
    next
      assume "c = char_of (48 + n mod 10)"
      then show ?thesis by simp
    qed
  qed
qed

lemma String_number_nonempty: "String_number n \<noteq> []"
  by (simp add: String_number_def digits_nonempty)

lemma comma_not_digit: "CHR '','' \<notin> set (digits n)"
  using digits_chars [of "CHR '',''" n] by auto

lemma minus_not_digit: "CHR ''-'' \<notin> set (digits n)"
  using digits_chars [of "CHR ''-''" n] by auto

lemma String_number_no_comma: "CHR '','' \<notin> set (String_number n)"
  by (simp add: String_number_def comma_not_digit)

lemma String_number_inj:
  assumes "String_number m = String_number n"
  shows "m = n"
proof -
  have hd_digit: "hd (digits k) \<noteq> CHR ''-''" for k
    using minus_not_digit [of k] digits_nonempty [of k] by (cases "digits k") auto
  show ?thesis
  proof (cases "m < 0")
    case True
    show ?thesis
    proof (cases "n < 0")
      case True
      with \<open>m < 0\<close> assms have "digits (nat (- m)) = digits (nat (- n))"
        by (simp add: String_number_def)
      then have "nat (- m) = nat (- n)" by (rule digits_inj)
      with True \<open>m < 0\<close> show ?thesis by simp
    next
      case False
      with \<open>m < 0\<close> assms have "CHR ''-'' # digits (nat (- m)) = digits (nat n)"
        by (simp add: String_number_def)
      then have "hd (digits (nat n)) = CHR ''-''" by (metis list.sel(1))
      with hd_digit show ?thesis by blast
    qed
  next
    case False
    show ?thesis
    proof (cases "n < 0")
      case True
      with False assms have "digits (nat m) = CHR ''-'' # digits (nat (- n))"
        by (simp add: String_number_def)
      then have "hd (digits (nat m)) = CHR ''-''" by (metis list.sel(1))
      with hd_digit show ?thesis by blast
    next
      case n: False
      with False assms have "digits (nat m) = digits (nat n)"
        by (simp add: String_number_def)
      then have "nat m = nat n" by (rule digits_inj)
      with False n show ?thesis by simp
    qed
  qed
qed

lemma join_Cons: "join (x # xs) sep = x @ (if xs = [] then [] else sep @ join xs sep)"
  by (cases xs) simp_all

lemma join_map_Cons:
  "join (map f (x # xs)) '','' = f x @ (if xs = [] then [] else CHR '','' # join (map f xs) '','')"
  by (cases xs) simp_all

lemma takeWhile_upto_sep:
  "c \<notin> set a \<Longrightarrow> takeWhile (\<lambda>x. x \<noteq> c) (a @ (if b then [] else c # r)) = a"
  by (induction a) auto

lemma join_numbers_inj:
  "join (map String_number xs) '','' = join (map String_number ys) '','' \<Longrightarrow> xs = ys"
proof (induction xs arbitrary: ys)
  case Nil
  show ?case
  proof (cases ys)
    case Nil
    then show ?thesis by simp
  next
    case (Cons y ys')
    with Nil show ?thesis by (simp add: join_Cons String_number_nonempty)
  qed
next
  case (Cons x xs)
  show ?case
  proof (cases ys)
    case Nil
    with Cons.prems show ?thesis by (simp add: join_Cons String_number_nonempty)
  next
    case ys: (Cons y ys')
    let ?rx = "if xs = [] then [] else CHR '','' # join (map String_number xs) '',''"
    let ?ry = "if ys' = [] then [] else CHR '','' # join (map String_number ys') '',''"
    have eq: "String_number x @ ?rx = String_number y @ ?ry"
      using Cons.prems unfolding ys join_map_Cons .
    have tx: "takeWhile (\<lambda>c. c \<noteq> CHR '','') (String_number x @ ?rx) = String_number x"
      using String_number_no_comma [of x] by (rule takeWhile_upto_sep)
    have ty: "takeWhile (\<lambda>c. c \<noteq> CHR '','') (String_number y @ ?ry) = String_number y"
      using String_number_no_comma [of y] by (rule takeWhile_upto_sep)
    from eq tx ty have sx: "String_number x = String_number y" by simp
    then have xy: "x = y" by (rule String_number_inj)
    from eq sx have r: "?rx = ?ry" by simp
    have "xs = ys'"
    proof (cases "xs = []")
      case True
      with r show ?thesis by (cases ys') (auto split: if_splits)
    next
      case False
      with r have "ys' \<noteq> []" by (auto split: if_splits)
      with r False have "join (map String_number xs) '','' = join (map String_number ys') '',''"
        by simp
      then show ?thesis by (rule Cons.IH)
    qed
    with xy ys show ?thesis by simp
  qed
qed

lemma depsOf_inj:
  assumes "depsOf p mrs = depsOf p' mrs'"
  shows "map id_mr mrs = map id_mr mrs'"
proof -
  from assms have "join (map String_number (map id_mr mrs)) '','' = join (map String_number (map id_mr mrs')) '',''"
    by (simp add: depsOf_def comp_def)
  then show ?thesis by (rule join_numbers_inj)
qed

subsection \<open>Superseded batches\<close>

text \<open>
  C8. Let the hook be in a state it can reach, with its effect last run for the list
  \<open>mrs0\<close>, and let a render bring a list with a different set of ids. Then every batch
  dispatched before that render is cancelled by the cleanup of lines 214 to 217: whenever
  such a batch settles afterwards, whatever its lookups returned and whatever happened in
  between, the mapping is left as it was. In any reachable state the only batch whose
  settling can change the mapping is the one dispatched last.
\<close>

theorem stale_batch_never_commits:
  assumes "s = run new_URL evs mounted"
    and "deps s = Some (depsOf p0 mrs0)"
    and "id_mr ` set mrs \<noteq> id_mr ` set mrs0"
    and "i < length (batches s)"
  shows "approvedMap (batchSettles new_URL i net (run new_URL later (useApprovals new_URL p mrs s)))
           = approvedMap (run new_URL later (useApprovals new_URL p mrs s))
         \<and> (\<forall>j net'. approvedMap (batchSettles new_URL j net' s) \<noteq> approvedMap s
               \<longrightarrow> Suc j = length (batches s))"
proof
  have live: "one_live s"
    unfolding assms(1) by (rule one_live_run [OF one_live_mounted])
  have changed: "deps s \<noteq> Some (depsOf p mrs)"
  proof
    assume "deps s = Some (depsOf p mrs)"
    with assms(2) have "depsOf p mrs = depsOf p0 mrs0" by simp
    then have "map id_mr mrs = map id_mr mrs0" by (rule depsOf_inj)
    then have "set (map id_mr mrs) = set (map id_mr mrs0)" by simp
    with assms(3) show False by simp
  qed
  have "stale (length (batches s)) (useApprovals new_URL p mrs s)"
    using live changed by (rule stale_after_change)
  then have "stale (length (batches s)) (run new_URL later (useApprovals new_URL p mrs s))"
    by (rule stale_run)
  then show "approvedMap (batchSettles new_URL i net (run new_URL later (useApprovals new_URL p mrs s)))
           = approvedMap (run new_URL later (useApprovals new_URL p mrs s))"
    using assms(4) by (rule stale_no_commit)
  show "\<forall>j net'. approvedMap (batchSettles new_URL j net' s) \<noteq> approvedMap s
               \<longrightarrow> Suc j = length (batches s)"
    using commit_only_latest [OF live] by blast
qed

theorem stale_batch_never_commits_witness:
  "approvedMap (run sample_URL
      [Render samplePrefs [sampleMR 7], Render samplePrefs [sampleMR 8],
       Settle 1 approvingServer, Settle 0 approvingServer] mounted)
     = approvedMap (run sample_URL
      [Render samplePrefs [sampleMR 7], Render samplePrefs [sampleMR 8],
       Settle 1 approvingServer] mounted)
   \<and> approvedMap (run sample_URL
      [Render samplePrefs [sampleMR 7], Render samplePrefs [sampleMR 8],
       Settle 1 approvingServer, Settle 0 approvingServer] mounted) 7 = None
   \<and> approvedMap (run sample_URL
      [Render samplePrefs [sampleMR 7], Render samplePrefs [sampleMR 8],
       Settle 1 approvingServer, Settle 0 approvingServer] mounted) 8 = Some True"
proof -
  let ?s = "run sample_URL [Render samplePrefs [sampleMR 7]] mounted"
  have d: "deps ?s = Some (depsOf samplePrefs [sampleMR 7])" by code_simp
  have c: "id_mr ` set [sampleMR 8] \<noteq> id_mr ` set [sampleMR 7]" by (simp add: sampleMR_def)
  have l: "0 < length (batches ?s)" by code_simp
  from stale_batch_never_commits [OF refl d c l, of approvingServer "[Settle 1 approvingServer]" samplePrefs]
  have "approvedMap (batchSettles sample_URL 0 approvingServer
            (run sample_URL [Settle 1 approvingServer] (useApprovals sample_URL samplePrefs [sampleMR 8] ?s)))
          = approvedMap (run sample_URL [Settle 1 approvingServer]
              (useApprovals sample_URL samplePrefs [sampleMR 8] ?s))"
    by (rule conjunct1)
  then have e: "approvedMap (run sample_URL
      [Render samplePrefs [sampleMR 7], Render samplePrefs [sampleMR 8],
       Settle 1 approvingServer, Settle 0 approvingServer] mounted)
     = approvedMap (run sample_URL
      [Render samplePrefs [sampleMR 7], Render samplePrefs [sampleMR 8],
       Settle 1 approvingServer] mounted)"
    by (simp add: run_def)
  have v: "approvedMap (run sample_URL
      [Render samplePrefs [sampleMR 7], Render samplePrefs [sampleMR 8],
       Settle 1 approvingServer, Settle 0 approvingServer] mounted) 7 = None
   \<and> approvedMap (run sample_URL
      [Render samplePrefs [sampleMR 7], Render samplePrefs [sampleMR 8],
       Settle 1 approvingServer, Settle 0 approvingServer] mounted) 8 = Some True"
    by code_simp
  from e v show ?thesis by blast
qed

end
